theory Spec2Isabelle
  imports Main "HOL-Library.AList" "HOL-Library.Sublist" "HOL-Library.List_Lexorder"
    "HOL-Library.Char_ord"
begin

section \<open>Strings\<close>

text \<open>
  Strings are lists of 8-bit characters: a character is a code unit from 0 to 255 of a
  JavaScript string. Domain names and the e-mail addresses checked against them are ASCII
  text, and on ASCII text the functions below compute what
  \<^verbatim>\<open>String.prototype.toLowerCase\<close>, \<^verbatim>\<open>trim\<close>, \<^verbatim>\<open>split\<close> and \<^verbatim>\<open>indexOf\<close> compute.
  Letters are the ASCII letters. White space is all the white space that there is among
  the code units up to 255.
\<close>

definition isUpper :: "char \<Rightarrow> bool" where
  "isUpper c = (65 \<le> (of_char c :: nat) \<and> (of_char c :: nat) \<le> 90)"

definition lowerChar :: "char \<Rightarrow> char" where
  "lowerChar c = (if isUpper c then char_of ((of_char c :: nat) + 32) else c)"

definition toLowerCase :: "string \<Rightarrow> string" where
  "toLowerCase s = map lowerChar s"

text \<open>
  White space, as \<^verbatim>\<open>trim\<close> strips it and as \<^verbatim>\<open>\s\<close> matches it: tab, line feed,
  vertical tab, form feed, carriage return, space and the no-break space (code unit 160).
\<close>

definition isSpace :: "char \<Rightarrow> bool" where
  "isSpace c = ((of_char c :: nat) \<in> {9, 10, 11, 12, 13, 32, 160})"

definition trim :: "string \<Rightarrow> string" where
  "trim s = rev (dropWhile isSpace (rev (dropWhile isSpace s)))"

text \<open>\<^verbatim>\<open>s.indexOf(c)\<close>: the first position of \<open>c\<close>, or \<open>-1\<close>.\<close>

definition indexOf :: "string \<Rightarrow> char \<Rightarrow> int" where
  "indexOf s c = (if c \<in> set s then int (length (takeWhile (\<lambda>x. x \<noteq> c) s)) else -1)"

text \<open>\<^verbatim>\<open>s.slice(i)\<close> for \<open>i \<ge> 0\<close>.\<close>

definition slice_from :: "string \<Rightarrow> int \<Rightarrow> string" where
  "slice_from s i = drop (nat i) s"

definition startsWith :: "string \<Rightarrow> string \<Rightarrow> bool" where
  "startsWith s p = (take (length p) s = p)"

definition endsWith :: "string \<Rightarrow> string \<Rightarrow> bool" where
  "endsWith s p = (length p \<le> length s \<and> drop (length s - length p) s = p)"

text \<open>
  \<^verbatim>\<open>s.replace(/^p/, '')\<close> for a pattern that is the literal text \<open>p\<close> anchored at the
  start: the prefix is removed when it is there.
\<close>

definition removePrefix :: "string \<Rightarrow> string \<Rightarrow> string" where
  "removePrefix p s = (if startsWith s p then drop (length p) s else s)"

text \<open>\<^verbatim>\<open>s.split(sep)\<close> for a one-character separator: never the empty array.\<close>

fun split_str :: "char \<Rightarrow> string \<Rightarrow> string list" where
  "split_str sep [] = [[]]"
| "split_str sep (c # cs) =
     (if c = sep then [] # split_str sep cs
      else (c # hd (split_str sep cs)) # tl (split_str sep cs))"

section \<open>The trie of \<^verbatim>\<open>src/utils/trie.ts\<close>\<close>

text \<open>
  \<^verbatim>\<open>interface TrieNode { children: Map<string, TrieNode>; isEnd: boolean }\<close>.
  The \<^verbatim>\<open>Map\<close> is an association list in insertion order with unique keys.
\<close>

datatype TrieNode = TrieNode (children: "(string \<times> TrieNode) list") (isEnd: bool)

text \<open>A \<^verbatim>\<open>DomainTrie\<close> is its root node; the constructor makes the empty root.\<close>

type_synonym DomainTrie = TrieNode

definition new_node :: TrieNode where
  "new_node = TrieNode [] False"

definition new_DomainTrie :: DomainTrie where
  "new_DomainTrie = new_node"

text \<open>
  The loop of \<^verbatim>\<open>insert\<close> walks down from the root, creating the missing child for each
  part, and sets \<^verbatim>\<open>isEnd\<close> on the node where it stops. The nodes are mutated in place
  in the source; here the path is rebuilt.
\<close>

fun insert_parts :: "string list \<Rightarrow> TrieNode \<Rightarrow> TrieNode" where
  "insert_parts [] node = TrieNode (children node) True"
| "insert_parts (part # parts) node =
     (let child = (case map_of (children node) part of
                     None \<Rightarrow> new_node
                   | Some c \<Rightarrow> c)
      in TrieNode (AList.update part (insert_parts parts child) (children node)) (isEnd node))"

definition reversedParts :: "string \<Rightarrow> string list" where
  "reversedParts domain = rev (split_str CHR ''.'' (toLowerCase domain))"

definition insert_domain :: "DomainTrie \<Rightarrow> string \<Rightarrow> DomainTrie" where
  "insert_domain root domain = insert_parts (reversedParts domain) root"

text \<open>
  The inner loop of \<^verbatim>\<open>hasDomain\<close>, from the node it has reached, over the parts that are
  left, together with the test of \<^verbatim>\<open>node.isEnd\<close> that follows the loop: the result is
  whether this starting position makes \<^verbatim>\<open>hasDomain\<close> return true.
\<close>

fun walk :: "TrieNode \<Rightarrow> string list \<Rightarrow> bool" where
  "walk node [] = isEnd node"
| "walk node (part # parts) =
     (case map_of (children node) part of
        None \<Rightarrow> isEnd node
      | Some childNode \<Rightarrow> (if isEnd childNode then True else walk childNode parts))"

text \<open>The outer loop: \<^verbatim>\<open>start\<close> runs over the positions of the reversed parts.\<close>

fun hasDomain_from :: "TrieNode \<Rightarrow> string list \<Rightarrow> bool" where
  "hasDomain_from root [] = False"
| "hasDomain_from root (part # parts) =
     (if walk root (part # parts) then True else hasDomain_from root parts)"

definition hasDomain :: "DomainTrie \<Rightarrow> string \<Rightarrow> bool" where
  "hasDomain root domain = hasDomain_from root (reversedParts domain)"

definition fromDomains :: "string list \<Rightarrow> DomainTrie" where
  "fromDomains domains = foldl insert_domain new_DomainTrie domains"

text \<open>
  What the trie holds, for the proofs: the node reached from a node along a path of parts,
  and whether that node is marked as the end of a domain.
\<close>

fun lookup_node :: "TrieNode \<Rightarrow> string list \<Rightarrow> TrieNode option" where
  "lookup_node node [] = Some node"
| "lookup_node node (part # parts) =
     (case map_of (children node) part of
        None \<Rightarrow> None
      | Some c \<Rightarrow> lookup_node c parts)"

definition terminal :: "TrieNode \<Rightarrow> string list \<Rightarrow> bool" where
  "terminal node parts = (case lookup_node node parts of None \<Rightarrow> False | Some n \<Rightarrow> isEnd n)"

text \<open>The labels of a domain, leftmost first, compared without regard to case.\<close>

definition labels :: "string \<Rightarrow> string list" where
  "labels domain = split_str CHR ''.'' (toLowerCase domain)"

text \<open>
  Two strings differ only in letter case: same length, and at each position the same
  character or the two cases of one letter.
\<close>

definition caseVariant :: "char \<Rightarrow> char \<Rightarrow> bool" where
  "caseVariant a b =
     (a = b \<or> (isUpper a \<and> (of_char b :: nat) = of_char a + 32)
            \<or> (isUpper b \<and> (of_char a :: nat) = of_char b + 32))"

definition differOnlyInCase :: "string \<Rightarrow> string \<Rightarrow> bool" where
  "differOnlyInCase s t = list_all2 caseVariant s t"

section \<open>Regular expressions\<close>

text \<open>
  The patterns of the source are anchored at both ends and use character classes,
  concatenation, alternatives and repetition only, so \<^verbatim>\<open>re.test(s)\<close> is membership of
  the whole string in a regular language. It is computed with derivatives.
\<close>

datatype regex =
    Zero
  | One
  | Sym "char \<Rightarrow> bool"
  | Alt regex regex
  | Seq regex regex
  | Star regex

fun nullable :: "regex \<Rightarrow> bool" where
  "nullable Zero = False"
| "nullable One = True"
| "nullable (Sym p) = False"
| "nullable (Alt r s) = (nullable r \<or> nullable s)"
| "nullable (Seq r s) = (nullable r \<and> nullable s)"
| "nullable (Star r) = True"

fun deriv :: "char \<Rightarrow> regex \<Rightarrow> regex" where
  "deriv c Zero = Zero"
| "deriv c One = Zero"
| "deriv c (Sym p) = (if p c then One else Zero)"
| "deriv c (Alt r s) = Alt (deriv c r) (deriv c s)"
| "deriv c (Seq r s) =
     (if nullable r then Alt (Seq (deriv c r) s) (deriv c s) else Seq (deriv c r) s)"
| "deriv c (Star r) = Seq (deriv c r) (Star r)"

fun test :: "regex \<Rightarrow> string \<Rightarrow> bool" where
  "test r [] = nullable r"
| "test r (c # cs) = test (deriv c r) cs"

text \<open>\<^verbatim>\<open>r+\<close>, \<^verbatim>\<open>r?\<close>, \<^verbatim>\<open>r{0,n}\<close> and a literal character.\<close>

definition Plus :: "regex \<Rightarrow> regex" where
  "Plus r = Seq r (Star r)"

definition Opt :: "regex \<Rightarrow> regex" where
  "Opt r = Alt One r"

fun UpTo :: "nat \<Rightarrow> regex \<Rightarrow> regex" where
  "UpTo 0 r = One"
| "UpTo (Suc n) r = Opt (Seq r (UpTo n r))"

definition Chr :: "char \<Rightarrow> regex" where
  "Chr c = Sym (\<lambda>x. x = c)"

text \<open>The language of a pattern, for the proofs.\<close>

definition conc :: "string set \<Rightarrow> string set \<Rightarrow> string set" where
  "conc A B = {u @ v | u v. u \<in> A \<and> v \<in> B}"

inductive_set star :: "string set \<Rightarrow> string set" for A :: "string set" where
  star_Nil: "[] \<in> star A"
| star_app: "u \<in> A \<Longrightarrow> v \<in> star A \<Longrightarrow> u @ v \<in> star A"

fun lang :: "regex \<Rightarrow> string set" where
  "lang Zero = {}"
| "lang One = {[]}"
| "lang (Sym p) = {[c] | c. p c}"
| "lang (Alt r s) = lang r \<union> lang s"
| "lang (Seq r s) = conc (lang r) (lang s)"
| "lang (Star r) = star (lang r)"

section \<open>The loader of \<^verbatim>\<open>src/data/loader.ts\<close>\<close>

text \<open>\<^verbatim>\<open>throw new Error(msg)\<close>, and the \<^verbatim>\<open>TypeError\<close> of a call on \<^verbatim>\<open>null\<close>.\<close>

datatype error = Error string | TypeError

text \<open>
  \<^verbatim>\<open>s.replace(/^https?:\/\//, '')\<close>: one replacement, of \<^verbatim>\<open>https://\<close> or of
  \<^verbatim>\<open>http://\<close> at the start.
\<close>

definition removeScheme :: "string \<Rightarrow> string" where
  "removeScheme s =
     (if startsWith s ''https://'' then drop 8 s
      else if startsWith s ''http://'' then drop 7 s
      else s)"

definition normalizeDomain :: "string \<Rightarrow> string" where
  "normalizeDomain domain =
     (let s0 = trim (toLowerCase domain);
          s1 = removeScheme s0;
          s2 = removePrefix ''www.'' s1;
          s3 = hd (split_str CHR ''/'' s2);
          s4 = hd (split_str CHR ''?'' s3)
      in hd (split_str CHR ''#'' s4))"

text \<open>The classes of \<^verbatim>\<open>domainRegex\<close>, which has the flag \<^verbatim>\<open>i\<close>.\<close>

definition isLower :: "char \<Rightarrow> bool" where
  "isLower c = (97 \<le> (of_char c :: nat) \<and> (of_char c :: nat) \<le> 122)"

definition isDigit :: "char \<Rightarrow> bool" where
  "isDigit c = (48 \<le> (of_char c :: nat) \<and> (of_char c :: nat) \<le> 57)"

definition isAlpha :: "char \<Rightarrow> bool" where
  "isAlpha c = (isLower c \<or> isUpper c)"

definition isAlnum :: "char \<Rightarrow> bool" where
  "isAlnum c = (isAlpha c \<or> isDigit c)"

definition isAlnumDash :: "char \<Rightarrow> bool" where
  "isAlnumDash c = (isAlnum c \<or> c = CHR ''-'')"

text \<open>\<^verbatim>\<open>[a-z0-9]([a-z0-9\-]{0,61}[a-z0-9])?\<close>\<close>

definition labelRegex :: regex where
  "labelRegex = Seq (Sym isAlnum) (Opt (Seq (UpTo 61 (Sym isAlnumDash)) (Sym isAlnum)))"

text \<open>
  \<^verbatim>\<open>/^[a-z0-9]([a-z0-9\-]{0,61}[a-z0-9])?(\.[a-z0-9]([a-z0-9\-]{0,61}[a-z0-9])?)*\.[a-z]{2,}$/i\<close>
\<close>

definition domainRegex :: regex where
  "domainRegex =
     Seq labelRegex
      (Seq (Star (Seq (Chr CHR ''.'') labelRegex))
        (Seq (Chr CHR ''.'') (Seq (Sym isAlpha) (Seq (Sym isAlpha) (Star (Sym isAlpha))))))"

definition isValidDomain :: "string \<Rightarrow> bool" where
  "isValidDomain domain =
     (if domain = [] \<or> length domain < 3 then False
      else if CHR ''.'' \<notin> set domain then False
      else if startsWith domain ''.'' \<or> endsWith domain ''.'' then False
      else if CHR '' '' \<in> set domain then False
      else test domainRegex domain)"

text \<open>
  What the outside world answers: the content of the first usable local JSON file (an
  array of strings), if there is one, and the lists that the fetches of the nine sources
  return, in the order in which \<^verbatim>\<open>fetchDomains\<close> merges them.
\<close>

record Env =
  localFile :: "string list option"
  sources :: "string list list"

text \<open>
  \<^verbatim>\<open>fetchDomains\<close>: normalise, keep the valid domains, remove the duplicates, sort; an
  empty result is an error.
\<close>

definition mergedDomains :: "string list list \<Rightarrow> string list" where
  "mergedDomains srcs = sort (remdups (filter isValidDomain (map normalizeDomain (concat srcs))))"

abbreviation noDomains :: error where
  "noDomains \<equiv> Error ''No domains could be loaded from any source''"

definition fetchDomains :: "Env \<Rightarrow> error + string list" where
  "fetchDomains env =
     (let merged = mergedDomains (sources env)
      in if length merged = 0 then Inl noDomains else Inr merged)"

definition loadDomainsFromFile :: "Env \<Rightarrow> string list option" where
  "loadDomainsFromFile env =
     (case localFile env of
        None \<Rightarrow> None
      | Some domains \<Rightarrow>
          if length domains > 0
          then Some (filter (\<lambda>d. d \<noteq> []) (map (\<lambda>d. trim (toLowerCase d)) domains))
          else None)"

section \<open>The module state\<close>

text \<open>
  The variables of \<^verbatim>\<open>src/index.ts\<close> (the set, the trie, the array and the cache of
  recent results, a \<^verbatim>\<open>Map\<close> in insertion order) and of the loader (\<^verbatim>\<open>cachedDomains\<close>
  and \<^verbatim>\<open>loadPromise\<close>, a promise that has settled with an error or with the domains).
  Calls run one after the other, each to its end.
\<close>

record State =
  TEMP_EMAIL_DOMAINS_SET :: "string set option"
  TEMP_EMAIL_DOMAINS_TRIE :: "DomainTrie option"
  TEMP_EMAIL_DOMAINS_ARRAY :: "string list option"
  DOMAIN_CACHE :: "(string \<times> bool) list"
  cachedDomains :: "string list option"
  loadPromise :: "(error + string list) option"

definition initial_state :: State where
  "initial_state =
     \<lparr>TEMP_EMAIL_DOMAINS_SET = None, TEMP_EMAIL_DOMAINS_TRIE = None,
      TEMP_EMAIL_DOMAINS_ARRAY = None, DOMAIN_CACHE = [],
      cachedDomains = None, loadPromise = None\<rparr>"

definition fetchAndCache :: "Env \<Rightarrow> State \<Rightarrow> (error + string list) \<times> State" where
  "fetchAndCache env st =
     (case fetchDomains env of
        Inl e \<Rightarrow> (Inl e, st\<lparr>loadPromise := Some (Inl e)\<rparr>)
      | Inr urlDomains \<Rightarrow>
          (Inr urlDomains,
           st\<lparr>cachedDomains := Some urlDomains, loadPromise := Some (Inr urlDomains)\<rparr>))"

text \<open>
  \<^verbatim>\<open>loadDomains\<close>: the cached domains, else the promise of a load that was started, else
  the local file when it has domains, else the fetch (\<open>fetchAndCache\<close> is the rest of the
  body of the promise, from \<^verbatim>\<open>fetchDomains()\<close> on).
\<close>

definition loadDomains :: "Env \<Rightarrow> State \<Rightarrow> (error + string list) \<times> State" where
  "loadDomains env st =
     (case cachedDomains st of
        Some domains \<Rightarrow> (Inr domains, st)
      | None \<Rightarrow>
         (case loadPromise st of
            Some settled \<Rightarrow> (settled, st)
          | None \<Rightarrow>
             (case loadDomainsFromFile env of
                Some fileDomains \<Rightarrow>
                  if length fileDomains > 0
                  then (Inr fileDomains,
                        st\<lparr>cachedDomains := Some fileDomains,
                           loadPromise := Some (Inr fileDomains)\<rparr>)
                  else fetchAndCache env st
              | None \<Rightarrow> fetchAndCache env st)))"

definition getCachedDomains :: "State \<Rightarrow> string list option" where
  "getCachedDomains st = cachedDomains st"

definition isDomainsLoaded :: "State \<Rightarrow> bool" where
  "isDomainsLoaded st = (cachedDomains st \<noteq> None)"

definition clearLoaderCache :: "State \<Rightarrow> State" where
  "clearLoaderCache st = st\<lparr>cachedDomains := None, loadPromise := None\<rparr>"

section \<open>The functions of \<^verbatim>\<open>src/index.ts\<close>\<close>

definition MAX_CACHE_SIZE :: nat where
  "MAX_CACHE_SIZE = 1000"

text \<open>
  \<^verbatim>\<open>cacheResult\<close>, on the cache: when the cache is full, the first key of the map, if
  there is one, is deleted; then the result is set.
\<close>

definition cacheResult :: "(string \<times> bool) list \<Rightarrow> string \<Rightarrow> bool \<Rightarrow> (string \<times> bool) list" where
  "cacheResult cache domain result =
     (let cache1 =
        (if length cache \<ge> MAX_CACHE_SIZE
         then (case cache of
                 [] \<Rightarrow> cache
               | (firstKey, v) # rest \<Rightarrow> AList.delete firstKey cache)
         else cache)
      in AList.update domain result cache1)"

definition initializeDomains :: "string list \<Rightarrow> State \<Rightarrow> State" where
  "initializeDomains domains st =
     st\<lparr>TEMP_EMAIL_DOMAINS_SET := Some (set domains),
        TEMP_EMAIL_DOMAINS_TRIE := Some (fromDomains domains),
        TEMP_EMAIL_DOMAINS_ARRAY := Some domains\<rparr>"

definition ensureDomainsLoaded :: "Env \<Rightarrow> State \<Rightarrow> (error + unit) \<times> State" where
  "ensureDomainsLoaded env st =
     (if isDomainsLoaded st then (Inr (), st)
      else (case loadDomains env st of
              (Inl e, st1) \<Rightarrow> (Inl e, st1)
            | (Inr domains, st1) \<Rightarrow>
                (Inr (), if TEMP_EMAIL_DOMAINS_SET st1 = None
                         then initializeDomains domains st1 else st1)))"

definition initialize :: "Env \<Rightarrow> State \<Rightarrow> (error + unit) \<times> State" where
  "initialize env st = ensureDomainsLoaded env st"

definition clearCache :: "State \<Rightarrow> State" where
  "clearCache st =
     clearLoaderCache
       (st\<lparr>TEMP_EMAIL_DOMAINS_SET := None, TEMP_EMAIL_DOMAINS_TRIE := None,
           TEMP_EMAIL_DOMAINS_ARRAY := None, DOMAIN_CACHE := []\<rparr>)"

text \<open>
  \<^verbatim>\<open>isTempEmail\<close>. The parameter is a string, so \<^verbatim>\<open>!email\<close> is the test for the empty
  string. Where the source reads \<^verbatim>\<open>TEMP_EMAIL_DOMAINS_SET!\<close> and
  \<^verbatim>\<open>TEMP_EMAIL_DOMAINS_TRIE!\<close>, a \<^verbatim>\<open>null\<close> would make the call on it throw.
\<close>

definition isTempEmail :: "State \<Rightarrow> string \<Rightarrow> error + (bool \<times> State)" where
  "isTempEmail st email =
     (if email = [] then Inr (False, st)
      else
        (case (if TEMP_EMAIL_DOMAINS_SET st = None \<or> TEMP_EMAIL_DOMAINS_TRIE st = None
               then (case getCachedDomains st of
                       Some cached \<Rightarrow> Some (initializeDomains cached st)
                     | None \<Rightarrow> None)
               else Some st) of
           None \<Rightarrow> Inr (False, st)
         | Some st1 \<Rightarrow>
            (let atIndex = indexOf email CHR ''@''
             in if atIndex = -1 \<or> atIndex = int (length email) - 1 then Inr (False, st1)
                else
                  (let domain = trim (toLowerCase (slice_from email (atIndex + 1)))
                   in if domain = [] then Inr (False, st1)
                      else
                        (case map_of (DOMAIN_CACHE st1) domain of
                           Some cachedResult \<Rightarrow> Inr (cachedResult, st1)
                         | None \<Rightarrow>
                            (case (TEMP_EMAIL_DOMAINS_SET st1, TEMP_EMAIL_DOMAINS_TRIE st1) of
                               (Some domainsSet, Some domainsTrie) \<Rightarrow>
                                 (let result = (if domain \<in> domainsSet then True
                                                else hasDomain domainsTrie domain)
                                  in Inr (result,
                                          st1\<lparr>DOMAIN_CACHE :=
                                                cacheResult (DOMAIN_CACHE st1) domain result\<rparr>))
                             | _ \<Rightarrow> Inl TypeError))))))"

text \<open>\<^verbatim>\<open>/^[^\s@]+@[^\s@]+\.[^\s@]+$/\<close>\<close>

definition notSpaceAt :: "char \<Rightarrow> bool" where
  "notSpaceAt c = (\<not> isSpace c \<and> c \<noteq> CHR ''@'')"

definition EMAIL_REGEX :: regex where
  "EMAIL_REGEX =
     Seq (Plus (Sym notSpaceAt))
      (Seq (Chr CHR ''@'')
        (Seq (Plus (Sym notSpaceAt))
          (Seq (Chr CHR ''.'') (Plus (Sym notSpaceAt)))))"

record ValidationResult =
  isValid :: bool
  isTempEmailR :: bool
  error :: "string option"

definition validateEmail :: "State \<Rightarrow> string \<Rightarrow> error + (ValidationResult \<times> State)" where
  "validateEmail st email =
     (if email = []
      then Inr (\<lparr>isValid = False, isTempEmailR = False,
                 error = Some ''Email is required and must be a string''\<rparr>, st)
      else
        (let isValidFormat = test EMAIL_REGEX email
         in if \<not> isValidFormat
            then Inr (\<lparr>isValid = False, isTempEmailR = False,
                       error = Some ''Invalid email format''\<rparr>, st)
            else
              (case isTempEmail st email of
                 Inl e \<Rightarrow> Inl e
               | Inr (isTemp, st1) \<Rightarrow>
                   Inr (\<lparr>isValid = True, isTempEmailR = isTemp,
                         error = (if isTemp then Some ''Email is from a temporary email service''
                                  else None)\<rparr>, st1))))"

text \<open>
  The parts of an address around its first \<^verbatim>\<open>@\<close>, and the structural check in the words
  of the specification: exactly one \<^verbatim>\<open>@\<close>, a nonempty local part, a nonempty domain part
  that contains at least one dot.
\<close>

definition localPart :: "string \<Rightarrow> string" where
  "localPart s = takeWhile (\<lambda>c. c \<noteq> CHR ''@'') s"

definition domainPart :: "string \<Rightarrow> string" where
  "domainPart s = drop 1 (dropWhile (\<lambda>c. c \<noteq> CHR ''@'') s)"

definition structuralCheck :: "string \<Rightarrow> bool" where
  "structuralCheck s =
     (count_list s CHR ''@'' = 1 \<and> localPart s \<noteq> [] \<and> domainPart s \<noteq> []
      \<and> CHR ''.'' \<in> set (domainPart s))"

text \<open>
  The check that the pattern makes: exactly one \<^verbatim>\<open>@\<close>, no white space anywhere, a
  nonempty local part, and a dot in the domain part that is neither its first nor its last
  character.
\<close>

definition formatCheck :: "string \<Rightarrow> bool" where
  "formatCheck s =
     (count_list s CHR ''@'' = 1 \<and> list_all (\<lambda>c. \<not> isSpace c) s \<and> localPart s \<noteq> []
      \<and> CHR ''.'' \<in> set (butlast (tl (domainPart s))))"

section \<open>Sequences of calls\<close>

text \<open>
  The calls that a program can make, on the module and on the loader, each with what the
  outside world answers during the call.
\<close>

datatype call =
    CallIsTempEmail string
  | CallValidateEmail string
  | CallInitialize Env
  | CallClearCache
  | CallLoadDomains Env
  | CallClearLoaderCache

fun exec :: "State \<Rightarrow> call \<Rightarrow> State" where
  "exec st (CallIsTempEmail email) =
     (case isTempEmail st email of Inl e \<Rightarrow> st | Inr (r, st1) \<Rightarrow> st1)"
| "exec st (CallValidateEmail email) =
     (case validateEmail st email of Inl e \<Rightarrow> st | Inr (r, st1) \<Rightarrow> st1)"
| "exec st (CallInitialize env) = snd (initialize env st)"
| "exec st CallClearCache = clearCache st"
| "exec st (CallLoadDomains env) = snd (loadDomains env st)"
| "exec st CallClearLoaderCache = clearLoaderCache st"

definition run :: "call list \<Rightarrow> State" where
  "run calls = foldl exec initial_state calls"

section \<open>Auxiliary notions for the proofs\<close>

text \<open>
  The body of \<^verbatim>\<open>isTempEmail\<close> from \<^verbatim>\<open>const atIndex\<close> on, once the set and the trie are
  known to be there.
\<close>

definition lookupEmail :: "State \<Rightarrow> string set \<Rightarrow> DomainTrie \<Rightarrow> string \<Rightarrow> bool \<times> State" where
  "lookupEmail st S T email =
     (let atIndex = indexOf email CHR ''@''
      in if atIndex = -1 \<or> atIndex = int (length email) - 1 then (False, st)
         else (let domain = trim (toLowerCase (slice_from email (atIndex + 1)))
               in if domain = [] then (False, st)
                  else (case map_of (DOMAIN_CACHE st) domain of
                          Some cachedResult \<Rightarrow> (cachedResult, st)
                        | None \<Rightarrow>
                           (let result = (domain \<in> S \<or> hasDomain T domain)
                            in (result,
                                st\<lparr>DOMAIN_CACHE :=
                                      cacheResult (DOMAIN_CACHE st) domain result\<rparr>)))))"

text \<open>The invariant of the cache: within its bound, and a map (no key twice).\<close>

definition cache_ok :: "State \<Rightarrow> bool" where
  "cache_ok st =
     (length (DOMAIN_CACHE st) \<le> MAX_CACHE_SIZE \<and> distinct (map fst (DOMAIN_CACHE st)))"

text \<open>
  The domains that \<^verbatim>\<open>loadDomains\<close> supplies when nothing is cached and no load was
  started: those of the local file when it has some, else the merged domains of the sources.
\<close>

definition suppliedDomains :: "Env \<Rightarrow> string list" where
  "suppliedDomains env =
     (case loadDomainsFromFile env of
        Some fileDomains \<Rightarrow>
          if length fileDomains > 0 then fileDomains else mergedDomains (sources env)
      | None \<Rightarrow> mergedDomains (sources env))"

text \<open>
  The invariant of the loaded data: every domain that the loader holds is in lower case, and
  the set and the trie are the ones built from the array, or all three are absent.
\<close>

definition lowered :: "string \<Rightarrow> bool" where
  "lowered d = (toLowerCase d = d)"

definition built_ok :: "State \<Rightarrow> bool" where
  "built_ok st =
     ((case cachedDomains st of None \<Rightarrow> True | Some ds \<Rightarrow> list_all lowered ds)
      \<and> (case loadPromise st of
            None \<Rightarrow> True
          | Some (Inl e) \<Rightarrow> True
          | Some (Inr ds) \<Rightarrow> list_all lowered ds)
      \<and> (case TEMP_EMAIL_DOMAINS_ARRAY st of
            None \<Rightarrow> TEMP_EMAIL_DOMAINS_SET st = None \<and> TEMP_EMAIL_DOMAINS_TRIE st = None
          | Some ds \<Rightarrow>
              list_all lowered ds \<and> TEMP_EMAIL_DOMAINS_SET st = Some (set ds)
              \<and> TEMP_EMAIL_DOMAINS_TRIE st = Some (fromDomains ds)))"

text \<open>The strings of the shape that \<open>EMAIL_REGEX\<close> describes, part by part.\<close>

definition wellFormed :: "string \<Rightarrow> bool" where
  "wellFormed w = (\<exists>l a b. w = l @ CHR ''@'' # a @ CHR ''.'' # b
      \<and> l \<noteq> [] \<and> a \<noteq> [] \<and> b \<noteq> []
      \<and> list_all notSpaceAt l \<and> list_all notSpaceAt a \<and> list_all notSpaceAt b)"

text \<open>A cache that holds as many entries as it may, for an example.\<close>

definition full_cache :: "(string \<times> bool) list" where
  "full_cache = map (\<lambda>n. (replicate (Suc n) CHR ''a'', False)) [0..<1000]"

section \<open>Strings: lemmas\<close>

lemma split_str_not_Nil: "split_str sep s \<noteq> []"
  by (induction s) auto

lemma split_str_append:
  "split_str sep (a @ sep # b) = split_str sep a @ split_str sep b"
  by (induction a) (auto simp: split_str_not_Nil)

lemma lowerChar_dot: "lowerChar CHR ''.'' = CHR ''.''"
  by (simp add: lowerChar_def isUpper_def)

lemma toLowerCase_append: "toLowerCase (a @ b) = toLowerCase a @ toLowerCase b"
  by (simp add: toLowerCase_def)

lemma labels_prepend: "labels (p @ ''.'' @ d) = labels p @ labels d"
  by (simp add: labels_def toLowerCase_def lowerChar_dot split_str_append)

lemma reversedParts_labels: "reversedParts d = rev (labels d)"
  by (simp add: reversedParts_def labels_def)

lemma reversedParts_not_Nil: "reversedParts d \<noteq> []"
  by (simp add: reversedParts_def split_str_not_Nil)

lemma isUpper_not_shifted:
  assumes "isUpper a" and "(of_char b :: nat) = of_char a + 32"
  shows "\<not> isUpper b" and "char_of ((of_char a :: nat) + 32) = b"
proof -
  show "\<not> isUpper b" using assms by (simp add: isUpper_def)
  have "char_of ((of_char a :: nat) + 32) = (char_of (of_char b :: nat) :: char)"
    using assms by simp
  then show "char_of ((of_char a :: nat) + 32) = b" by simp
qed

lemma caseVariant_lowerChar: "caseVariant a b \<Longrightarrow> lowerChar a = lowerChar b"
  unfolding caseVariant_def
proof (elim disjE conjE)
  assume "a = b" then show ?thesis by simp
next
  assume "isUpper a" "(of_char b :: nat) = of_char a + 32"
  then show ?thesis using isUpper_not_shifted[of a b] by (simp add: lowerChar_def)
next
  assume "isUpper b" "(of_char a :: nat) = of_char b + 32"
  then show ?thesis using isUpper_not_shifted[of b a] by (simp add: lowerChar_def)
qed

lemma differOnlyInCase_toLowerCase:
  "differOnlyInCase s t \<Longrightarrow> toLowerCase s = toLowerCase t"
  unfolding differOnlyInCase_def toLowerCase_def
  by (induction s t rule: list_all2_induct) (simp_all add: caseVariant_lowerChar)

section \<open>The trie: what \<^verbatim>\<open>insert\<close> stores and what \<^verbatim>\<open>hasDomain\<close> finds\<close>

lemma terminal_Nil: "terminal node [] = isEnd node"
  by (simp add: terminal_def)

lemma terminal_Cons:
  "terminal node (p # ps) =
     (case map_of (children node) p of None \<Rightarrow> False | Some c \<Rightarrow> terminal c ps)"
  by (simp add: terminal_def split: option.splits)

lemma terminal_new_node: "terminal new_node ps = False"
  by (cases ps) (simp_all add: terminal_Nil terminal_Cons new_node_def)

text \<open>Inserting a path marks that path, and changes the mark of no other path.\<close>

lemma terminal_insert_parts:
  "terminal (insert_parts qs node) ps = (ps = qs \<or> terminal node ps)"
proof (induction qs arbitrary: node ps)
  case Nil
  then show ?case by (cases ps) (auto simp: terminal_Nil terminal_Cons)
next
  case (Cons q qs)
  show ?case
  proof (cases ps)
    case Nil
    then show ?thesis by (simp add: terminal_Nil Let_def)
  next
    case (Cons p ps')
    then show ?thesis using Cons.IH
      by (auto simp: terminal_Cons Let_def update_conv' terminal_new_node split: option.splits)
  qed
qed

lemma terminal_foldl_insert:
  "terminal (foldl insert_domain root ds) b = (terminal root b \<or> b \<in> reversedParts ` set ds)"
  by (induction ds arbitrary: root) (auto simp: insert_domain_def terminal_insert_parts)

lemma terminal_fromDomains: "terminal (fromDomains ds) b = (b \<in> reversedParts ` set ds)"
  by (simp add: fromDomains_def terminal_foldl_insert new_DomainTrie_def terminal_new_node)

lemma isEnd_fromDomains: "\<not> isEnd (fromDomains ds)"
proof
  assume "isEnd (fromDomains ds)"
  then have "[] \<in> reversedParts ` set ds"
    using terminal_fromDomains[of ds "[]"] by (simp add: terminal_Nil)
  then show False using reversedParts_not_Nil by (metis imageE)
qed

text \<open>
  From a node that is not itself marked, the inner loop succeeds exactly when some nonempty
  prefix of the remaining parts is a marked path.
\<close>

lemma walk_iff:
  "\<not> isEnd node \<Longrightarrow>
   walk node ps = (\<exists>pre. pre \<noteq> [] \<and> prefix pre ps \<and> terminal node pre)"
proof (induction ps arbitrary: node)
  case Nil
  then show ?case by simp
next
  case (Cons p ps)
  show ?case
  proof (cases "map_of (children node) p")
    case None
    have "\<not> terminal node pre" if "pre \<noteq> []" "prefix pre (p # ps)" for pre
      using that None by (cases pre) (auto simp: terminal_Cons)
    then show ?thesis using None Cons.prems by auto
  next
    case (Some c)
    show ?thesis
    proof (cases "isEnd c")
      case True
      then have "terminal node [p]" using Some by (simp add: terminal_Cons terminal_Nil)
      moreover have "prefix [p] (p # ps)" by simp
      ultimately have "\<exists>pre. pre \<noteq> [] \<and> prefix pre (p # ps) \<and> terminal node pre"
        by blast
      then show ?thesis using Some True by simp
    next
      case False
      have "(\<exists>pre. pre \<noteq> [] \<and> prefix pre (p # ps) \<and> terminal node pre) =
            (\<exists>pre'. pre' \<noteq> [] \<and> prefix pre' ps \<and> terminal c pre')"
      proof
        assume "\<exists>pre. pre \<noteq> [] \<and> prefix pre (p # ps) \<and> terminal node pre"
        then obtain pre where pre: "pre \<noteq> []" "prefix pre (p # ps)" "terminal node pre"
          by blast
        then obtain pre' where p': "pre = p # pre'" "prefix pre' ps" by (cases pre) auto
        with pre Some have "terminal c pre'" by (simp add: terminal_Cons)
        moreover from this False have "pre' \<noteq> []" by (auto simp: terminal_Nil)
        ultimately show "\<exists>pre'. pre' \<noteq> [] \<and> prefix pre' ps \<and> terminal c pre'"
          using p' by blast
      next
        assume "\<exists>pre'. pre' \<noteq> [] \<and> prefix pre' ps \<and> terminal c pre'"
        then obtain pre' where "pre' \<noteq> []" "prefix pre' ps" "terminal c pre'" by blast
        then have "p # pre' \<noteq> [] \<and> prefix (p # pre') (p # ps) \<and> terminal node (p # pre')"
          using Some by (simp add: terminal_Cons)
        then show "\<exists>pre. pre \<noteq> [] \<and> prefix pre (p # ps) \<and> terminal node pre" by blast
      qed
      then show ?thesis using Some False Cons.IH[OF False] by simp
    qed
  qed
qed

lemma hasDomain_from_iff:
  "\<not> isEnd root \<Longrightarrow>
   hasDomain_from root qs = (\<exists>b. b \<noteq> [] \<and> sublist b qs \<and> terminal root b)"
proof (induction qs)
  case Nil
  then show ?case by auto
next
  case (Cons q qs)
  have "(\<exists>b. b \<noteq> [] \<and> sublist b (q # qs) \<and> terminal root b) =
        ((\<exists>b. b \<noteq> [] \<and> prefix b (q # qs) \<and> terminal root b)
         \<or> (\<exists>b. b \<noteq> [] \<and> sublist b qs \<and> terminal root b))"
    by (auto simp: sublist_Cons_right)
  moreover have "hasDomain_from root (q # qs) = (walk root (q # qs) \<or> hasDomain_from root qs)"
    by (simp del: walk.simps)
  ultimately show ?case using Cons walk_iff[OF Cons.prems, of "q # qs"]
    by (simp del: walk.simps hasDomain_from.simps)
qed

lemma hasDomain_fromDomains:
  "hasDomain (fromDomains ds) q = (\<exists>d \<in> set ds. sublist (labels d) (labels q))"
proof -
  have "hasDomain (fromDomains ds) q =
        (\<exists>b. b \<noteq> [] \<and> sublist b (reversedParts q) \<and> b \<in> reversedParts ` set ds)"
    by (simp add: hasDomain_def hasDomain_from_iff[OF isEnd_fromDomains] terminal_fromDomains)
  also have "\<dots> = (\<exists>d \<in> set ds. sublist (reversedParts d) (reversedParts q))"
    using reversedParts_not_Nil by auto
  also have "\<dots> = (\<exists>d \<in> set ds. sublist (labels d) (labels q))"
    by (simp add: reversedParts_labels)
  finally show ?thesis .
qed

section \<open>The claims about the trie\<close>

text \<open>
  C7. \<^verbatim>\<open>hasDomain\<close> on a trie built from a sequence of domains returns true if and only if
  the labels of one of these domains occur as a contiguous block anywhere among the labels
  of the query (after lowercasing), not only at its end.
\<close>

theorem hasDomain_iff_contiguous_block:
  "hasDomain (fromDomains domains) query =
     (\<exists>d \<in> set domains. \<exists>before after. labels query = before @ labels d @ after)"
  by (simp add: hasDomain_fromDomains sublist_def)

theorem hasDomain_iff_contiguous_block_witness:
  "hasDomain (fromDomains [''example.com'']) ''example.com.evil''
   \<and> labels ''example.com.evil'' = [] @ labels ''example.com'' @ [''evil'']"
proof -
  have l: "labels ''example.com.evil'' = [] @ labels ''example.com'' @ [''evil'']"
    by code_simp
  then have "\<exists>d \<in> set [''example.com'']. \<exists>before after.
               labels ''example.com.evil'' = before @ labels d @ after"
    by (metis list.set_intros(1))
  then show ?thesis
    using l hasDomain_iff_contiguous_block[of "[''example.com'']" "''example.com.evil''"]
    by simp
qed

text \<open>
  C3. For every domain \<open>D\<close> of the sequence the trie was built from and every prefix \<open>P\<close>,
  \<^verbatim>\<open>hasDomain(P + "." + D)\<close> is true.
\<close>

theorem hasDomain_subdomain:
  "D \<in> set domains \<Longrightarrow> hasDomain (fromDomains domains) (P @ ''.'' @ D)"
proof -
  assume "D \<in> set domains"
  moreover have "sublist (labels D) (labels (P @ ''.'' @ D))"
    unfolding labels_prepend sublist_def by (metis append_Nil2)
  ultimately show ?thesis unfolding hasDomain_fromDomains by blast
qed

theorem hasDomain_subdomain_witness:
  "''example.com'' \<in> set [''test.org'', ''example.com'']
   \<and> hasDomain (fromDomains [''test.org'', ''example.com''])
        (''mail.sub'' @ ''.'' @ ''example.com'')"
proof -
  have h: "''example.com'' \<in> set [''test.org'', ''example.com'']" by simp
  show ?thesis using h hasDomain_subdomain[OF h, of "''mail.sub''"] by simp
qed

text \<open>
  C10. Two strings that differ only in letter case are the same to the trie: as a query they
  get the same answer from every trie, and inserted into a trie they give the same trie.
\<close>

theorem case_invariance:
  "differOnlyInCase s t \<Longrightarrow>
   hasDomain root s = hasDomain root t \<and> insert_domain root s = insert_domain root t"
  by (simp add: hasDomain_def insert_domain_def reversedParts_def differOnlyInCase_toLowerCase)

theorem case_invariance_witness:
  "differOnlyInCase ''Example.COM'' ''example.com''
   \<and> hasDomain (fromDomains [''example.com'']) ''Example.COM''
       = hasDomain (fromDomains [''example.com'']) ''example.com''
   \<and> hasDomain (fromDomains [''example.com'']) ''example.com''
   \<and> insert_domain new_DomainTrie ''Example.COM'' = insert_domain new_DomainTrie ''example.com''"
proof -
  have h: "differOnlyInCase ''Example.COM'' ''example.com''" by code_simp
  have e: "hasDomain (fromDomains [''example.com'']) ''example.com''" by code_simp
  show ?thesis
    using h e case_invariance[OF h, of "fromDomains [''example.com'']"]
      case_invariance[OF h, of new_DomainTrie]
    by simp
qed

text \<open>
  C1. With only \<^verbatim>\<open>example.com\<close> inserted, the queries \<^verbatim>\<open>example\<close>, \<^verbatim>\<open>com\<close> and
  \<^verbatim>\<open>notexample.com\<close> are not found, but \<^verbatim>\<open>example.com.evil\<close> is found, though it was not
  inserted and the labels of no inserted domain end its labels.
\<close>

theorem hasDomain_non_ancestor:
  "hasDomain (fromDomains [''example.com'']) ''example.com.evil''
   \<and> ''example.com.evil'' \<notin> set [''example.com'']
   \<and> \<not> suffix (labels ''example.com'') (labels ''example.com.evil'')
   \<and> \<not> hasDomain (fromDomains [''example.com'']) ''example''
   \<and> \<not> hasDomain (fromDomains [''example.com'']) ''com''
   \<and> \<not> hasDomain (fromDomains [''example.com'']) ''notexample.com''"
  by code_simp

section \<open>The lookup and its cache: lemmas\<close>

lemma initializeDomains_fields:
  "TEMP_EMAIL_DOMAINS_SET (initializeDomains ds st) = Some (set ds)"
  "TEMP_EMAIL_DOMAINS_TRIE (initializeDomains ds st) = Some (fromDomains ds)"
  "TEMP_EMAIL_DOMAINS_ARRAY (initializeDomains ds st) = Some ds"
  "DOMAIN_CACHE (initializeDomains ds st) = DOMAIN_CACHE st"
  "cachedDomains (initializeDomains ds st) = cachedDomains st"
  "loadPromise (initializeDomains ds st) = loadPromise st"
  by (simp_all add: initializeDomains_def)

lemma isTempEmail_built:
  assumes "TEMP_EMAIL_DOMAINS_SET st = Some S" "TEMP_EMAIL_DOMAINS_TRIE st = Some T"
  shows "isTempEmail st email =
           (if email = [] then Inr (False, st) else Inr (lookupEmail st S T email))"
  using assms by (simp add: isTempEmail_def lookupEmail_def Let_def split: option.splits)

lemma isTempEmail_unbuilt_cached:
  assumes "TEMP_EMAIL_DOMAINS_SET st = None \<or> TEMP_EMAIL_DOMAINS_TRIE st = None"
    and "cachedDomains st = Some ds"
  shows "isTempEmail st email =
           (if email = [] then Inr (False, st)
            else Inr (lookupEmail (initializeDomains ds st) (set ds) (fromDomains ds) email))"
  using assms
  by (auto simp add: isTempEmail_def lookupEmail_def Let_def getCachedDomains_def
        initializeDomains_fields split: option.splits)

lemma isTempEmail_unbuilt_uncached:
  assumes "TEMP_EMAIL_DOMAINS_SET st = None \<or> TEMP_EMAIL_DOMAINS_TRIE st = None"
    and "cachedDomains st = None"
  shows "isTempEmail st email = Inr (False, st)"
  using assms by (auto simp add: isTempEmail_def getCachedDomains_def)

lemma isTempEmail_total: "\<exists>r st'. isTempEmail st email = Inr (r, st')"
proof (cases "TEMP_EMAIL_DOMAINS_SET st = None \<or> TEMP_EMAIL_DOMAINS_TRIE st = None")
  case True
  show ?thesis
  proof (cases "cachedDomains st")
    case None
    then show ?thesis using True isTempEmail_unbuilt_uncached by blast
  next
    case (Some ds)
    show ?thesis using isTempEmail_unbuilt_cached[OF True Some, of email]
      by (cases "lookupEmail (initializeDomains ds st) (set ds) (fromDomains ds) email") auto
  qed
next
  case False
  then obtain S T where "TEMP_EMAIL_DOMAINS_SET st = Some S" "TEMP_EMAIL_DOMAINS_TRIE st = Some T"
    by auto
  then show ?thesis using isTempEmail_built[of st S T email]
    by (cases "lookupEmail st S T email") auto
qed

lemma length_delete_first: "length (AList.delete k ((k, v) # rest)) \<le> length rest"
  by (simp add: length_delete_le)

lemma length_cacheResult:
  "length cache \<le> MAX_CACHE_SIZE \<Longrightarrow> length (cacheResult cache d r) \<le> MAX_CACHE_SIZE"
proof -
  assume le: "length cache \<le> MAX_CACHE_SIZE"
  have upd: "length (AList.update d r c) \<le> Suc (length c)" for c
    by (induction c) auto
  show ?thesis
  proof (cases "length cache \<ge> MAX_CACHE_SIZE")
    case True
    then obtain k v rest where c: "cache = (k, v) # rest"
      by (cases cache) (auto simp: MAX_CACHE_SIZE_def)
    have "length (AList.delete k cache) \<le> length rest" using c length_delete_first by simp
    then have "Suc (length (AList.delete k cache)) \<le> MAX_CACHE_SIZE" using c le by simp
    then show ?thesis using True c upd[of "AList.delete k cache"]
      by (simp add: cacheResult_def del: delete_simps)
  next
    case False
    then show ?thesis using upd[of cache] by (simp add: cacheResult_def)
  qed
qed

lemma distinct_cacheResult:
  "distinct (map fst cache) \<Longrightarrow> distinct (map fst (cacheResult cache d r))"
  by (auto simp: cacheResult_def distinct_update distinct_delete split: list.splits
        simp del: delete_simps)

lemma map_of_cacheResult: "map_of (cacheResult cache d r) d = Some r"
  by (simp add: cacheResult_def Let_def update_conv')

lemma cacheResult_full:
  assumes "length cache = MAX_CACHE_SIZE" "distinct (map fst cache)"
  shows "cacheResult cache d r = AList.update d r (tl cache)"
proof -
  obtain k v rest where c: "cache = (k, v) # rest"
    using assms(1) by (cases cache) (auto simp: MAX_CACHE_SIZE_def)
  then have "k \<notin> fst ` set rest" using assms(2) by auto
  then have "AList.delete k rest = rest" by (simp add: delete_id)
  then show ?thesis using c assms(1) by (simp add: cacheResult_def)
qed

lemma update_fresh: "d \<notin> fst ` set al \<Longrightarrow> AList.update d r al = al @ [(d, r)]"
  by (induction al) auto


lemma lookupEmail_frame:
  "lookupEmail st S T email = (r, st') \<Longrightarrow> st' = st\<lparr>DOMAIN_CACHE := DOMAIN_CACHE st'\<rparr>"
  by (auto simp: lookupEmail_def Let_def split: if_splits option.splits)

lemma lookupEmail_again:
  assumes "lookupEmail st S T email = (r, st')"
  shows "lookupEmail st' S T email = (r, st')"
proof -
  let ?at = "indexOf email CHR ''@''"
  let ?d = "trim (toLowerCase (slice_from email (?at + 1)))"
  show ?thesis
  proof (cases "?at = -1 \<or> ?at = int (length email) - 1 \<or> ?d = []")
    case True
    then show ?thesis using assms by (auto simp: lookupEmail_def Let_def)
  next
    case False
    show ?thesis
    proof (cases "map_of (DOMAIN_CACHE st) ?d")
      case (Some c)
      then show ?thesis using assms False by (auto simp: lookupEmail_def Let_def)
    next
      case None
      then have r: "r = (?d \<in> S \<or> hasDomain T ?d)"
        and st': "st' = st\<lparr>DOMAIN_CACHE := cacheResult (DOMAIN_CACHE st) ?d r\<rparr>"
        using assms False by (auto simp: lookupEmail_def Let_def)
      have "map_of (DOMAIN_CACHE st') ?d = Some r" using st' by (simp add: map_of_cacheResult)
      then show ?thesis using False by (simp add: lookupEmail_def Let_def)
    qed
  qed
qed

lemma lookupEmail_cache:
  "lookupEmail st S T email = (r, st') \<Longrightarrow>
   DOMAIN_CACHE st' = DOMAIN_CACHE st \<or> (\<exists>d. DOMAIN_CACHE st' = cacheResult (DOMAIN_CACHE st) d r)"
  by (auto simp: lookupEmail_def Let_def split: if_splits option.splits)

lemma cache_ok_lookupEmail:
  assumes "lookupEmail st S T email = (r, st')" "cache_ok st"
  shows "cache_ok st'"
  using lookupEmail_cache[OF assms(1)] assms(2)
  by (auto simp: cache_ok_def length_cacheResult distinct_cacheResult)

lemma cache_ok_isTempEmail:
  assumes "isTempEmail st email = Inr (r, st')" "cache_ok st"
  shows "cache_ok st'"
proof (cases "TEMP_EMAIL_DOMAINS_SET st = None \<or> TEMP_EMAIL_DOMAINS_TRIE st = None")
  case True
  show ?thesis
  proof (cases "cachedDomains st")
    case None
    then show ?thesis using True isTempEmail_unbuilt_uncached[of st email] assms by simp
  next
    case (Some ds)
    have "cache_ok (initializeDomains ds st)"
      using assms(2) by (simp add: cache_ok_def initializeDomains_fields)
    then show ?thesis using isTempEmail_unbuilt_cached[OF True Some, of email] assms
      by (auto split: if_splits intro: cache_ok_lookupEmail[OF sym])
  qed
next
  case False
  then obtain S T where "TEMP_EMAIL_DOMAINS_SET st = Some S" "TEMP_EMAIL_DOMAINS_TRIE st = Some T"
    by auto
  then show ?thesis using isTempEmail_built[of st S T email] assms
    by (auto split: if_splits intro: cache_ok_lookupEmail[OF sym])
qed

lemma cache_ok_validateEmail:
  assumes "validateEmail st email = Inr (r, st')" "cache_ok st"
  shows "cache_ok st'"
  using assms
  by (auto simp: validateEmail_def Let_def split: if_splits sum.splits
        intro: cache_ok_isTempEmail)

lemma DOMAIN_CACHE_loadDomains: "DOMAIN_CACHE (snd (loadDomains env st)) = DOMAIN_CACHE st"
  by (simp add: loadDomains_def fetchAndCache_def split: option.splits sum.splits)

lemma DOMAIN_CACHE_initialize: "DOMAIN_CACHE (snd (initialize env st)) = DOMAIN_CACHE st"
proof (cases "loadDomains env st")
  case (Pair res st1)
  then have "DOMAIN_CACHE st1 = DOMAIN_CACHE st" using DOMAIN_CACHE_loadDomains[of env st] by simp
  then show ?thesis using Pair
    by (simp add: initialize_def ensureDomainsLoaded_def initializeDomains_fields split: sum.splits)
qed

lemma cache_ok_exec: "cache_ok st \<Longrightarrow> cache_ok (exec st c)"
proof (cases c)
  case (CallIsTempEmail e)
  assume "cache_ok st"
  then show ?thesis using CallIsTempEmail cache_ok_isTempEmail[of st e]
    by (auto split: sum.splits)
next
  case (CallValidateEmail e)
  assume "cache_ok st"
  then show ?thesis using CallValidateEmail cache_ok_validateEmail[of st e]
    by (auto split: sum.splits)
next
  case (CallInitialize env)
  assume "cache_ok st"
  then show ?thesis using CallInitialize by (simp add: cache_ok_def DOMAIN_CACHE_initialize)
next
  case CallClearCache
  then show ?thesis by (simp add: cache_ok_def clearCache_def clearLoaderCache_def)
next
  case (CallLoadDomains env)
  assume "cache_ok st"
  then show ?thesis using CallLoadDomains by (simp add: cache_ok_def DOMAIN_CACHE_loadDomains)
next
  case CallClearLoaderCache
  assume "cache_ok st"
  then show ?thesis using CallClearLoaderCache by (simp add: cache_ok_def clearLoaderCache_def)
qed

lemma cache_ok_foldl: "cache_ok st \<Longrightarrow> cache_ok (foldl exec st cs)"
  by (induction cs arbitrary: st) (simp_all add: cache_ok_exec)

lemma cache_ok_run: "cache_ok (run cs)"
  unfolding run_def by (rule cache_ok_foldl) (simp add: cache_ok_def initial_state_def)

lemma full_cache_props:
  "length full_cache = MAX_CACHE_SIZE"
  "distinct (map fst full_cache)"
  "''b.com'' \<notin> fst ` set full_cache"
  by (auto simp: full_cache_def MAX_CACHE_SIZE_def distinct_map inj_on_def comp_def)

section \<open>The claims about the lookup and its cache\<close>

text \<open>
  C5. \<^verbatim>\<open>isTempEmail\<close> never throws, whatever the state and the input. When the set or
  the trie is not built and the loader holds no cached domains either, it returns false and
  changes nothing.
\<close>

theorem isTempEmail_not_ready:
  "(\<exists>r st'. isTempEmail st email = Inr (r, st'))
   \<and> ((TEMP_EMAIL_DOMAINS_SET st = None \<or> TEMP_EMAIL_DOMAINS_TRIE st = None)
        \<and> cachedDomains st = None
       \<longrightarrow> isTempEmail st email = Inr (False, st))"
  using isTempEmail_total isTempEmail_unbuilt_uncached by blast

theorem isTempEmail_not_ready_witness:
  "TEMP_EMAIL_DOMAINS_SET initial_state = None
   \<and> cachedDomains initial_state = None
   \<and> isTempEmail initial_state ''user@0-180.com'' = Inr (False, initial_state)"
proof -
  have h: "TEMP_EMAIL_DOMAINS_SET initial_state = None" "cachedDomains initial_state = None"
    by (simp_all add: initial_state_def)
  show ?thesis using h isTempEmail_not_ready[of initial_state "''user@0-180.com''"] by simp
qed

text \<open>
  C5 as it is stated fails: with the set and the trie not built but domains cached by the
  loader, \<^verbatim>\<open>isTempEmail\<close> builds the structures from the cached domains and answers true
  for an address at one of them.
\<close>

theorem isTempEmail_not_built_counterexample:
  "TEMP_EMAIL_DOMAINS_SET (initial_state\<lparr>cachedDomains := Some [''0-180.com'']\<rparr>) = None
   \<and> TEMP_EMAIL_DOMAINS_TRIE (initial_state\<lparr>cachedDomains := Some [''0-180.com'']\<rparr>) = None
   \<and> isTempEmail (initial_state\<lparr>cachedDomains := Some [''0-180.com'']\<rparr>) ''user@0-180.com''
       = Inr (True,
              (initializeDomains [''0-180.com'']
                 (initial_state\<lparr>cachedDomains := Some [''0-180.com'']\<rparr>))
              \<lparr>DOMAIN_CACHE := [(''0-180.com'', True)]\<rparr>)"
  by code_simp

text \<open>
  C8. In a state where the set and the trie are built, \<^verbatim>\<open>isTempEmail\<close> returns a verdict
  and a state that differs from the first in the cache at most; the same call in that state
  returns the same verdict and changes nothing more. The set and the trie stay as they were.
\<close>

theorem isTempEmail_repeat:
  assumes "TEMP_EMAIL_DOMAINS_SET st = Some S" and "TEMP_EMAIL_DOMAINS_TRIE st = Some T"
  shows "\<exists>r st1. isTempEmail st email = Inr (r, st1)
           \<and> isTempEmail st1 email = Inr (r, st1)
           \<and> st1 = st\<lparr>DOMAIN_CACHE := DOMAIN_CACHE st1\<rparr>
           \<and> TEMP_EMAIL_DOMAINS_SET st1 = Some S \<and> TEMP_EMAIL_DOMAINS_TRIE st1 = Some T"
proof (cases "email = []")
  case True
  then show ?thesis using assms
    by (intro exI[of _ False] exI[of _ st]) (simp add: isTempEmail_built[OF assms])
next
  case False
  obtain r st1 where l: "lookupEmail st S T email = (r, st1)"
    by (cases "lookupEmail st S T email")
  have fr: "st1 = st\<lparr>DOMAIN_CACHE := DOMAIN_CACHE st1\<rparr>" using lookupEmail_frame[OF l] .
  have b: "TEMP_EMAIL_DOMAINS_SET st1 = Some S" "TEMP_EMAIL_DOMAINS_TRIE st1 = Some T"
    using assms by (subst fr, simp)+
  have "isTempEmail st1 email = Inr (r, st1)"
    using False lookupEmail_again[OF l] by (simp add: isTempEmail_built[OF b])
  moreover have "isTempEmail st email = Inr (r, st1)"
    using False l by (simp add: isTempEmail_built[OF assms])
  ultimately show ?thesis using fr b by blast
qed

theorem isTempEmail_repeat_witness:
  "TEMP_EMAIL_DOMAINS_SET (initializeDomains [''0-180.com''] initial_state) = Some {''0-180.com''}
   \<and> TEMP_EMAIL_DOMAINS_TRIE (initializeDomains [''0-180.com''] initial_state)
       = Some (fromDomains [''0-180.com''])
   \<and> isTempEmail (initializeDomains [''0-180.com''] initial_state) ''user@sub.0-180.com''
       = Inr (True, (initializeDomains [''0-180.com''] initial_state)
                      \<lparr>DOMAIN_CACHE := [(''sub.0-180.com'', True)]\<rparr>)
   \<and> (\<exists>r st1. isTempEmail (initializeDomains [''0-180.com''] initial_state)
                  ''user@sub.0-180.com'' = Inr (r, st1)
         \<and> isTempEmail st1 ''user@sub.0-180.com'' = Inr (r, st1)
         \<and> st1 = (initializeDomains [''0-180.com''] initial_state)\<lparr>DOMAIN_CACHE := DOMAIN_CACHE st1\<rparr>
         \<and> TEMP_EMAIL_DOMAINS_SET st1 = Some {''0-180.com''}
         \<and> TEMP_EMAIL_DOMAINS_TRIE st1 = Some (fromDomains [''0-180.com'']))"
proof -
  let ?st = "initializeDomains [''0-180.com''] initial_state"
  have s: "TEMP_EMAIL_DOMAINS_SET ?st = Some {''0-180.com''}"
    by (simp add: initializeDomains_def)
  have t: "TEMP_EMAIL_DOMAINS_TRIE ?st = Some (fromDomains [''0-180.com''])"
    by (simp add: initializeDomains_def)
  have e: "isTempEmail ?st ''user@sub.0-180.com''
             = Inr (True, ?st\<lparr>DOMAIN_CACHE := [(''sub.0-180.com'', True)]\<rparr>)"
    by code_simp
  show ?thesis using s t e isTempEmail_repeat[OF s t, of "''user@sub.0-180.com''"] by simp
qed

text \<open>
  C6. After any sequence of calls from the initial state the cache holds at most
  \<open>MAX_CACHE_SIZE = 1000\<close> entries, no key twice. \<^verbatim>\<open>cacheResult\<close> keeps the bound; on a
  cache that is full it removes the first entry, the one inserted longest ago, and no
  other, before it sets the new result, which for a new key goes to the end.
\<close>

theorem cache_bounded:
  "cache_ok (run calls)
   \<and> (length cache \<le> MAX_CACHE_SIZE \<longrightarrow>
        length (cacheResult cache domain result) \<le> MAX_CACHE_SIZE)
   \<and> (length cache = MAX_CACHE_SIZE \<and> distinct (map fst cache) \<longrightarrow>
        cacheResult cache domain result = AList.update domain result (tl cache))
   \<and> (length cache = MAX_CACHE_SIZE \<and> distinct (map fst cache)
        \<and> domain \<notin> fst ` set cache \<longrightarrow>
        cacheResult cache domain result = tl cache @ [(domain, result)])"
proof -
  have "cacheResult cache domain result = tl cache @ [(domain, result)]"
    if "length cache = MAX_CACHE_SIZE" "distinct (map fst cache)" "domain \<notin> fst ` set cache"
  proof -
    have "domain \<notin> fst ` set (tl cache)" using that(3) by (cases cache) auto
    then show ?thesis using cacheResult_full[OF that(1,2)] update_fresh by simp
  qed
  then show ?thesis using cache_ok_run length_cacheResult cacheResult_full by blast
qed

theorem cache_bounded_witness:
  "length full_cache = MAX_CACHE_SIZE
   \<and> distinct (map fst full_cache)
   \<and> ''b.com'' \<notin> fst ` set full_cache
   \<and> cacheResult full_cache ''b.com'' True = tl full_cache @ [(''b.com'', True)]
   \<and> cacheResult full_cache ''b.com'' True = AList.update ''b.com'' True (tl full_cache)
   \<and> length (cacheResult full_cache ''b.com'' True) \<le> MAX_CACHE_SIZE
   \<and> length (DOMAIN_CACHE (run [CallIsTempEmail ''x@a.com'', CallClearCache])) \<le> MAX_CACHE_SIZE"
proof -
  have le: "length full_cache \<le> MAX_CACHE_SIZE" by (simp add: full_cache_props(1))
  show ?thesis
    using le full_cache_props
      cache_bounded[of "[CallIsTempEmail ''x@a.com'', CallClearCache]" full_cache "''b.com''" True]
    unfolding cache_ok_def by blast
qed

section \<open>The loader and the loaded data: lemmas\<close>

lemma of_char_shift:
  "isUpper c \<Longrightarrow>
   (of_char (char_of ((of_char c :: nat) + 32) :: char) :: nat) = of_char c + 32"
  by (simp add: isUpper_def)

lemma not_isUpper_lowerChar: "\<not> isUpper (lowerChar c)"
  using of_char_shift[of c] by (auto simp: lowerChar_def isUpper_def)

lemma lowerChar_id: "\<not> isUpper c \<Longrightarrow> lowerChar c = c"
  by (simp add: lowerChar_def)

lemma toLowerCase_id: "(\<And>c. c \<in> set s \<Longrightarrow> \<not> isUpper c) \<Longrightarrow> toLowerCase s = s"
  by (induction s) (simp_all add: toLowerCase_def lowerChar_id)

lemma no_upper_toLowerCase: "c \<in> set (toLowerCase s) \<Longrightarrow> \<not> isUpper c"
  by (auto simp: toLowerCase_def not_isUpper_lowerChar)

lemma set_trim: "set (trim s) \<subseteq> set s"
proof -
  have "set (trim s) \<subseteq> set (rev (dropWhile isSpace s))"
    unfolding trim_def using set_dropWhileD by fastforce
  also have "\<dots> \<subseteq> set s" using set_dropWhileD by fastforce
  finally show ?thesis .
qed

lemma set_removePrefix: "set (removePrefix p s) \<subseteq> set s"
  by (auto simp: removePrefix_def dest: in_set_dropD)

lemma set_removeScheme: "set (removeScheme s) \<subseteq> set s"
  by (auto simp: removeScheme_def dest: in_set_dropD)

lemma set_hd_split_str: "set (hd (split_str sep s)) \<subseteq> set s"
  by (induction s) auto

lemma set_normalizeDomain: "set (normalizeDomain d) \<subseteq> set (toLowerCase d)"
  unfolding normalizeDomain_def Let_def
  by (meson set_hd_split_str set_removePrefix set_removeScheme set_trim subset_trans)

lemma toLowerCase_normalizeDomain: "toLowerCase (normalizeDomain d) = normalizeDomain d"
  using set_normalizeDomain no_upper_toLowerCase by (intro toLowerCase_id) blast

lemma toLowerCase_trim_lower: "toLowerCase (trim (toLowerCase d)) = trim (toLowerCase d)"
  using set_trim no_upper_toLowerCase by (intro toLowerCase_id) blast

lemma mergedDomains_lower: "d \<in> set (mergedDomains srcs) \<Longrightarrow> toLowerCase d = d"
  by (auto simp: mergedDomains_def toLowerCase_normalizeDomain)

lemma fetchDomains_lower: "fetchDomains env = Inr ds \<Longrightarrow> d \<in> set ds \<Longrightarrow> toLowerCase d = d"
  by (auto simp: fetchDomains_def Let_def mergedDomains_lower split: if_splits)

lemma loadDomainsFromFile_lower:
  "loadDomainsFromFile env = Some ds \<Longrightarrow> d \<in> set ds \<Longrightarrow> toLowerCase d = d"
  by (auto simp: loadDomainsFromFile_def toLowerCase_trim_lower split: option.splits if_splits)

lemma loadDomains_fresh:
  assumes "cachedDomains st = None" "loadPromise st = None"
  shows "loadDomains env st =
    (if suppliedDomains env = []
     then (Inl noDomains, st\<lparr>loadPromise := Some (Inl noDomains)\<rparr>)
     else (Inr (suppliedDomains env),
           st\<lparr>cachedDomains := Some (suppliedDomains env),
              loadPromise := Some (Inr (suppliedDomains env))\<rparr>))"
  using assms
  by (auto simp: loadDomains_def suppliedDomains_def fetchAndCache_def fetchDomains_def Let_def
        split: option.splits)

lemma suppliedDomains_lower: "d \<in> set (suppliedDomains env) \<Longrightarrow> toLowerCase d = d"
  by (auto simp: suppliedDomains_def mergedDomains_lower loadDomainsFromFile_lower
        split: option.splits if_splits)

lemma suppliedDomains_Nil:
  "suppliedDomains env = [] \<longleftrightarrow>
     (loadDomainsFromFile env = None \<or> loadDomainsFromFile env = Some [])
     \<and> mergedDomains (sources env) = []"
  by (auto simp: suppliedDomains_def split: option.splits)

lemma initialize_fresh:
  assumes "cachedDomains st = None" "loadPromise st = None" "TEMP_EMAIL_DOMAINS_SET st = None"
  shows "initialize env st =
    (if suppliedDomains env = []
     then (Inl noDomains, st\<lparr>loadPromise := Some (Inl noDomains)\<rparr>)
     else (Inr (), initializeDomains (suppliedDomains env)
                     (st\<lparr>cachedDomains := Some (suppliedDomains env),
                        loadPromise := Some (Inr (suppliedDomains env))\<rparr>)))"
  using assms
  by (simp add: initialize_def ensureDomainsLoaded_def isDomainsLoaded_def loadDomains_fresh)

lemma suppliedDomains_lowered: "list_all lowered (suppliedDomains env)"
  by (simp add: list_all_iff lowered_def suppliedDomains_lower)

lemma built_ok_loadDomains:
  assumes "built_ok st"
  shows "built_ok (snd (loadDomains env st))"
    and "fst (loadDomains env st) = Inr ds \<Longrightarrow> list_all lowered ds"
proof -
  show "built_ok (snd (loadDomains env st))"
  proof (cases "cachedDomains st = None \<and> loadPromise st = None")
    case True
    then show ?thesis using assms suppliedDomains_lowered[of env]
      by (auto simp: loadDomains_fresh built_ok_def split: option.splits)
  next
    case False
    then have "snd (loadDomains env st) = st" by (auto simp: loadDomains_def split: option.splits)
    then show ?thesis using assms by simp
  qed
  show "list_all lowered ds" if "fst (loadDomains env st) = Inr ds"
  proof (cases "cachedDomains st = None \<and> loadPromise st = None")
    case True
    then show ?thesis using that suppliedDomains_lowered[of env]
      by (auto simp: loadDomains_fresh split: if_splits)
  next
    case False
    then show ?thesis using that assms
      by (auto simp: loadDomains_def built_ok_def split: option.splits sum.splits)
  qed
qed

lemma built_ok_initializeDomains:
  "built_ok st \<Longrightarrow> list_all lowered ds \<Longrightarrow> built_ok (initializeDomains ds st)"
  by (simp add: built_ok_def initializeDomains_def split: option.splits)

lemma built_ok_cache: "built_ok (st\<lparr>DOMAIN_CACHE := c\<rparr>) = built_ok st"
  by (simp add: built_ok_def split: option.splits)

lemma built_ok_lookupEmail:
  assumes "lookupEmail st S T email = (r, st')" "built_ok st"
  shows "built_ok st'"
  using lookupEmail_frame[OF assms(1)] assms(2) built_ok_cache by metis

lemma built_ok_isTempEmail:
  assumes "isTempEmail st email = Inr (r, st')" "built_ok st"
  shows "built_ok st'"
proof (cases "TEMP_EMAIL_DOMAINS_SET st = None \<or> TEMP_EMAIL_DOMAINS_TRIE st = None")
  case True
  show ?thesis
  proof (cases "cachedDomains st")
    case None
    then show ?thesis using True isTempEmail_unbuilt_uncached[of st email] assms by simp
  next
    case (Some ds)
    then have "list_all lowered ds" using assms(2) by (simp add: built_ok_def)
    then have "built_ok (initializeDomains ds st)" using assms(2) built_ok_initializeDomains by simp
    then show ?thesis using isTempEmail_unbuilt_cached[OF True Some, of email] assms
      by (auto split: if_splits intro: built_ok_lookupEmail[OF sym])
  qed
next
  case False
  then obtain S T where "TEMP_EMAIL_DOMAINS_SET st = Some S" "TEMP_EMAIL_DOMAINS_TRIE st = Some T"
    by auto
  then show ?thesis using isTempEmail_built[of st S T email] assms
    by (auto split: if_splits intro: built_ok_lookupEmail[OF sym])
qed

lemma built_ok_validateEmail:
  assumes "validateEmail st email = Inr (r, st')" "built_ok st"
  shows "built_ok st'"
  using assms
  by (auto simp: validateEmail_def Let_def split: if_splits sum.splits
        intro: built_ok_isTempEmail)

lemma built_ok_initialize: 
  assumes "built_ok st" shows "built_ok (snd (initialize env st))"
proof (cases "isDomainsLoaded st")
  case True
  then show ?thesis using assms by (simp add: initialize_def ensureDomainsLoaded_def)
next
  case False
  obtain res st1 where l: "loadDomains env st = (res, st1)" by (cases "loadDomains env st")
  have b1: "built_ok st1" using built_ok_loadDomains(1)[OF assms, of env] l by simp
  show ?thesis
  proof (cases res)
    case (Inl e)
    then show ?thesis using False l b1 by (simp add: initialize_def ensureDomainsLoaded_def)
  next
    case (Inr ds)
    then have "list_all lowered ds" using built_ok_loadDomains(2)[OF assms, of env ds] l by simp
    then show ?thesis using False l b1 Inr built_ok_initializeDomains
      by (simp add: initialize_def ensureDomainsLoaded_def)
  qed
qed

lemma built_ok_exec: "built_ok st \<Longrightarrow> built_ok (exec st c)"
proof (cases c)
  case (CallIsTempEmail e)
  assume "built_ok st"
  then show ?thesis using CallIsTempEmail built_ok_isTempEmail[of st e]
    by (auto split: sum.splits)
next
  case (CallValidateEmail e)
  assume "built_ok st"
  then show ?thesis using CallValidateEmail built_ok_validateEmail[of st e]
    by (auto split: sum.splits)
next
  case (CallInitialize env)
  assume "built_ok st"
  then show ?thesis using CallInitialize by (simp add: built_ok_initialize)
next
  case CallClearCache
  then show ?thesis by (simp add: built_ok_def clearCache_def clearLoaderCache_def)
next
  case (CallLoadDomains env)
  assume "built_ok st"
  then show ?thesis using CallLoadDomains by (simp add: built_ok_loadDomains(1))
next
  case CallClearLoaderCache
  assume "built_ok st"
  then show ?thesis using CallClearLoaderCache
    by (simp add: built_ok_def clearLoaderCache_def split: option.splits)
qed

lemma built_ok_foldl: "built_ok st \<Longrightarrow> built_ok (foldl exec st cs)"
  by (induction cs arbitrary: st) (simp_all add: built_ok_exec)

lemma built_ok_run: "built_ok (run cs)"
  unfolding run_def by (rule built_ok_foldl) (simp add: built_ok_def initial_state_def)

lemma hasDomain_inserted: "D \<in> set domains \<Longrightarrow> hasDomain (fromDomains domains) D"
  unfolding hasDomain_fromDomains by (metis sublist_order.order_refl)

section \<open>The claims about loading\<close>

text \<open>
  C4. Every domain \<open>D\<close> of the sequence from which the structures are built is found by
  \<^verbatim>\<open>hasDomain\<close> in the trie built from the sequence, and is a member of the set built
  from it. In every state that a sequence of calls reaches from the initial state, the set
  and the trie are the ones built from the array of domains that the state holds, and every
  domain of the array is in lower case already, so that lowercasing \<open>D\<close> gives a member
  of the set as well.
\<close>

theorem exactness:
  "D \<in> set domains \<Longrightarrow>
     hasDomain (fromDomains domains) D
     \<and> TEMP_EMAIL_DOMAINS_SET (initializeDomains domains st) = Some (set domains)
     \<and> TEMP_EMAIL_DOMAINS_TRIE (initializeDomains domains st) = Some (fromDomains domains)
     \<and> (TEMP_EMAIL_DOMAINS_ARRAY (run calls) = Some domains \<longrightarrow>
          TEMP_EMAIL_DOMAINS_SET (run calls) = Some (set domains)
          \<and> TEMP_EMAIL_DOMAINS_TRIE (run calls) = Some (fromDomains domains)
          \<and> toLowerCase D = D)"
proof -
  assume D: "D \<in> set domains"
  have "TEMP_EMAIL_DOMAINS_SET (run calls) = Some (set domains)
          \<and> TEMP_EMAIL_DOMAINS_TRIE (run calls) = Some (fromDomains domains)
          \<and> toLowerCase D = D"
    if "TEMP_EMAIL_DOMAINS_ARRAY (run calls) = Some domains"
    using built_ok_run[of calls] that D by (auto simp: built_ok_def list_all_iff lowered_def)
  then show ?thesis using D by (simp add: hasDomain_inserted initializeDomains_fields)
qed

theorem exactness_witness:
  "''a.com'' \<in> set [''a.com'', ''b.org'']
   \<and> TEMP_EMAIL_DOMAINS_ARRAY
        (run [CallInitialize \<lparr>localFile = None, sources = [[''B.org'', ''a.com'']]\<rparr>])
       = Some [''a.com'', ''b.org'']
   \<and> hasDomain (fromDomains [''a.com'', ''b.org'']) ''a.com''
   \<and> TEMP_EMAIL_DOMAINS_SET
        (run [CallInitialize \<lparr>localFile = None, sources = [[''B.org'', ''a.com'']]\<rparr>])
       = Some (set [''a.com'', ''b.org''])
   \<and> TEMP_EMAIL_DOMAINS_TRIE
        (run [CallInitialize \<lparr>localFile = None, sources = [[''B.org'', ''a.com'']]\<rparr>])
       = Some (fromDomains [''a.com'', ''b.org''])
   \<and> toLowerCase ''a.com'' = ''a.com''"
proof -
  let ?calls = "[CallInitialize \<lparr>localFile = None, sources = [[''B.org'', ''a.com'']]\<rparr>]"
  have h: "''a.com'' \<in> set [''a.com'', ''b.org'']" by simp
  have a: "TEMP_EMAIL_DOMAINS_ARRAY (run ?calls) = Some [''a.com'', ''b.org'']" by code_simp
  show ?thesis using h a exactness[OF h, of initial_state ?calls] by simp
qed

text \<open>
  C9. When nothing is loaded (no cached domains, no load started, no set built),
  \<^verbatim>\<open>initialize\<close> fails with the error of \<^verbatim>\<open>fetchDomains\<close> exactly when the local
  file supplies no domain and the merged, validated sequence of the sources is empty, and it
  fails with no other error. When domains are supplied, by the file or else by the sources,
  it succeeds, caches them and builds the set, the trie and the array from them.
\<close>

theorem initialize_fails_iff:
  assumes "cachedDomains st = None" and "loadPromise st = None"
    and "TEMP_EMAIL_DOMAINS_SET st = None"
  shows "(fst (initialize env st) = Inl (Error ''No domains could be loaded from any source''))
           = ((loadDomainsFromFile env = None \<or> loadDomainsFromFile env = Some [])
              \<and> mergedDomains (sources env) = [])
         \<and> ((\<exists>e. fst (initialize env st) = Inl e) = (fst (initialize env st) = Inl noDomains))
         \<and> (suppliedDomains env \<noteq> [] \<longrightarrow>
              initialize env st =
                (Inr (), initializeDomains (suppliedDomains env)
                           (st\<lparr>cachedDomains := Some (suppliedDomains env),
                              loadPromise := Some (Inr (suppliedDomains env))\<rparr>)))"
  using suppliedDomains_Nil[of env] by (auto simp: initialize_fresh[OF assms])

theorem initialize_fails_iff_witness:
  "cachedDomains initial_state = None \<and> loadPromise initial_state = None
   \<and> TEMP_EMAIL_DOMAINS_SET initial_state = None
   \<and> loadDomainsFromFile \<lparr>localFile = None, sources = [[''not a domain'']]\<rparr> = None
   \<and> mergedDomains (sources \<lparr>localFile = None, sources = [[''not a domain'']]\<rparr>) = []
   \<and> fst (initialize \<lparr>localFile = None, sources = [[''not a domain'']]\<rparr> initial_state)
       = Inl (Error ''No domains could be loaded from any source'')
   \<and> suppliedDomains \<lparr>localFile = None, sources = [[''A.com'']]\<rparr> = [''a.com'']
   \<and> initialize \<lparr>localFile = None, sources = [[''A.com'']]\<rparr> initial_state
       = (Inr (), initializeDomains [''a.com'']
                    (initial_state\<lparr>cachedDomains := Some [''a.com''],
                                  loadPromise := Some (Inr [''a.com''])\<rparr>))"
proof -
  have h: "cachedDomains initial_state = None" "loadPromise initial_state = None"
    "TEMP_EMAIL_DOMAINS_SET initial_state = None"
    by (simp_all add: initial_state_def)
  have f: "loadDomainsFromFile \<lparr>localFile = None, sources = [[''not a domain'']]\<rparr> = None"
    by (simp add: loadDomainsFromFile_def)
  have m: "mergedDomains (sources \<lparr>localFile = None, sources = [[''not a domain'']]\<rparr>) = []"
    by code_simp
  have s: "suppliedDomains \<lparr>localFile = None, sources = [[''A.com'']]\<rparr> = [''a.com'']"
    by code_simp
  show ?thesis
    using h f m s
      initialize_fails_iff[OF h, of "\<lparr>localFile = None, sources = [[''not a domain'']]\<rparr>"]
      initialize_fails_iff[OF h, of "\<lparr>localFile = None, sources = [[''A.com'']]\<rparr>"]
    by simp
qed

text \<open>
  C9 as it is stated fails: when the local file supplies domains, the sources are not
  asked, and \<^verbatim>\<open>initialize\<close> succeeds though their merged sequence is empty.
\<close>

theorem initialize_local_file_counterexample:
  "mergedDomains (sources \<lparr>localFile = Some [''a.com''], sources = []\<rparr>) = []
   \<and> initialize \<lparr>localFile = Some [''a.com''], sources = []\<rparr> initial_state
       = (Inr (), initializeDomains [''a.com'']
                    (initial_state\<lparr>cachedDomains := Some [''a.com''],
                                  loadPromise := Some (Inr [''a.com''])\<rparr>))"
  by code_simp

section \<open>Regular expressions: the matcher decides the language\<close>

lemma conc_Nil_iff: "[] \<in> conc A B \<longleftrightarrow> [] \<in> A \<and> [] \<in> B"
  by (auto simp: conc_def)

lemma conc_Cons_iff:
  "c # w \<in> conc A B \<longleftrightarrow> ([] \<in> A \<and> c # w \<in> B) \<or> (\<exists>u v. w = u @ v \<and> c # u \<in> A \<and> v \<in> B)"
proof
  assume "c # w \<in> conc A B"
  then obtain x y where xy: "c # w = x @ y" "x \<in> A" "y \<in> B" by (auto simp: conc_def)
  show "([] \<in> A \<and> c # w \<in> B) \<or> (\<exists>u v. w = u @ v \<and> c # u \<in> A \<and> v \<in> B)"
  proof (cases x)
    case Nil
    then show ?thesis using xy by simp
  next
    case (Cons a u)
    then have "w = u @ y" "c # u \<in> A" using xy by auto
    then show ?thesis using xy(3) by blast
  qed
next
  assume "([] \<in> A \<and> c # w \<in> B) \<or> (\<exists>u v. w = u @ v \<and> c # u \<in> A \<and> v \<in> B)"
  then show "c # w \<in> conc A B"
  proof
    assume "[] \<in> A \<and> c # w \<in> B"
    then have "[] @ (c # w) \<in> conc A B" unfolding conc_def by blast
    then show ?thesis by simp
  next
    assume "\<exists>u v. w = u @ v \<and> c # u \<in> A \<and> v \<in> B"
    then obtain u v where "w = u @ v" "c # u \<in> A" "v \<in> B" by blast
    then have "(c # u) @ v \<in> conc A B" unfolding conc_def by blast
    then show ?thesis using \<open>w = u @ v\<close> by simp
  qed
qed

lemma star_Cons_iff:
  "c # w \<in> star A \<longleftrightarrow> (\<exists>u v. w = u @ v \<and> c # u \<in> A \<and> v \<in> star A)"
proof
  assume "c # w \<in> star A"
  then show "\<exists>u v. w = u @ v \<and> c # u \<in> A \<and> v \<in> star A"
  proof (induction "c # w" rule: star.induct)
    case (star_app u v)
    show ?case
    proof (cases u)
      case Nil
      then show ?thesis using star_app by simp
    next
      case (Cons a u')
      then show ?thesis using star_app by auto
    qed
  qed
next
  assume "\<exists>u v. w = u @ v \<and> c # u \<in> A \<and> v \<in> star A"
  then obtain u v where "w = u @ v" "c # u \<in> A" "v \<in> star A" by blast
  then have "(c # u) @ v \<in> star A" by (intro star.star_app)
  then show "c # w \<in> star A" using \<open>w = u @ v\<close> by simp
qed

lemma nullable_iff: "nullable r \<longleftrightarrow> [] \<in> lang r"
  by (induction r) (auto simp: conc_Nil_iff intro: star.star_Nil)

lemma lang_deriv: "w \<in> lang (deriv c r) \<longleftrightarrow> c # w \<in> lang r"
proof (induction r arbitrary: w)
  case (Seq r s)
  show ?case
    by (auto simp: Seq conc_Cons_iff nullable_iff) (auto simp: conc_def Seq)
next
  case (Star r)
  show ?case by (auto simp: star_Cons_iff conc_def Star)
qed auto

lemma test_iff: "test r w \<longleftrightarrow> w \<in> lang r"
  by (induction w arbitrary: r) (simp_all add: nullable_iff lang_deriv)


lemma star_Sym: "w \<in> star (lang (Sym p)) \<longleftrightarrow> list_all p w"
proof (induction w)
  case Nil
  show ?case by (simp add: star.star_Nil)
next
  case (Cons c w)
  then show ?case by (auto simp: star_Cons_iff)
qed

lemma lang_Plus_Sym: "w \<in> lang (Plus (Sym p)) \<longleftrightarrow> w \<noteq> [] \<and> list_all p w"
proof (cases w)
  case Nil
  then show ?thesis by (simp add: Plus_def conc_Nil_iff)
next
  case (Cons c u)
  have "c # u \<in> conc (lang (Sym p)) (star (lang (Sym p))) \<longleftrightarrow> p c \<and> list_all p u"
    using star_Sym[of _ p] by (auto simp: conc_Cons_iff)
  then show ?thesis using Cons by (simp add: Plus_def)
qed

lemma lang_Chr: "lang (Chr c) = {[c]}"
  by (auto simp: Chr_def)

lemma conc_Chr: "conc (lang (Chr c)) B = {c # v | v. v \<in> B}"
  by (auto simp: conc_def lang_Chr)

lemma lang_EMAIL_REGEX: "w \<in> lang EMAIL_REGEX \<longleftrightarrow> wellFormed w"
proof -
  let ?P = "lang (Plus (Sym notSpaceAt))"
  have "w \<in> lang EMAIL_REGEX \<longleftrightarrow>
        (\<exists>l r1. w = l @ r1 \<and> l \<in> ?P \<and> (\<exists>r2. r1 = CHR ''@'' # r2 \<and>
           (\<exists>a r3. r2 = a @ r3 \<and> a \<in> ?P \<and> (\<exists>b. r3 = CHR ''.'' # b \<and> b \<in> ?P))))"
    unfolding EMAIL_REGEX_def lang.simps(5) conc_Chr
    by (simp add: conc_def)
  also have "\<dots> \<longleftrightarrow> wellFormed w"
    unfolding wellFormed_def lang_Plus_Sym by (safe; blast)
  finally show ?thesis .
qed

lemma notSpaceAt_all: "list_all notSpaceAt w \<longleftrightarrow> list_all (\<lambda>c. \<not> isSpace c) w \<and> CHR ''@'' \<notin> set w"
  by (induction w) (auto simp: notSpaceAt_def)

lemma parts_at:
  assumes "CHR ''@'' \<notin> set l"
  shows "localPart (l @ CHR ''@'' # d) = l" "domainPart (l @ CHR ''@'' # d) = d"
  using assms by (induction l) (auto simp: localPart_def domainPart_def)

lemma count_at_one:
  "count_list w CHR ''@'' = 1 \<longleftrightarrow>
     (\<exists>l d. w = l @ CHR ''@'' # d \<and> CHR ''@'' \<notin> set l \<and> CHR ''@'' \<notin> set d)"
proof
  assume c: "count_list w CHR ''@'' = 1"
  then have "CHR ''@'' \<in> set w" by (metis count_list_0_iff zero_neq_one)
  then obtain l d where w: "w = l @ CHR ''@'' # d" "CHR ''@'' \<notin> set l"
    by (meson split_list_first)
  then have "count_list d CHR ''@'' = 0" using c by (simp add: count_list_0_iff[THEN iffD2])
  then have "CHR ''@'' \<notin> set d" by (simp add: count_list_0_iff)
  then show "\<exists>l d. w = l @ CHR ''@'' # d \<and> CHR ''@'' \<notin> set l \<and> CHR ''@'' \<notin> set d" using w by blast
next
  assume "\<exists>l d. w = l @ CHR ''@'' # d \<and> CHR ''@'' \<notin> set l \<and> CHR ''@'' \<notin> set d"
  then show "count_list w CHR ''@'' = 1" by (auto simp: count_list_0_iff[THEN iffD2])
qed

lemma inner_dot:
  "CHR ''.'' \<in> set (butlast (tl d)) \<longleftrightarrow> (\<exists>a b. d = a @ CHR ''.'' # b \<and> a \<noteq> [] \<and> b \<noteq> [])"
proof
  assume "CHR ''.'' \<in> set (butlast (tl d))"
  then obtain m1 m2 where m: "butlast (tl d) = m1 @ CHR ''.'' # m2" by (meson split_list)
  then have ne: "tl d \<noteq> []" by auto
  then have "d = hd d # tl d" by (cases d) auto
  moreover have "tl d = butlast (tl d) @ [last (tl d)]" using ne by simp
  ultimately have "d = (hd d # m1) @ CHR ''.'' # (m2 @ [last (tl d)])"
    using m by (metis append_Cons append_assoc)
  then show "\<exists>a b. d = a @ CHR ''.'' # b \<and> a \<noteq> [] \<and> b \<noteq> []" by blast
next
  assume "\<exists>a b. d = a @ CHR ''.'' # b \<and> a \<noteq> [] \<and> b \<noteq> []"
  then obtain a b where d: "d = a @ CHR ''.'' # b" "a \<noteq> []" "b \<noteq> []" by blast
  then have "tl d = tl a @ CHR ''.'' # b" by (cases a) auto
  then have "butlast (tl d) = tl a @ CHR ''.'' # butlast b" using d(3) by (simp add: butlast_append)
  then show "CHR ''.'' \<in> set (butlast (tl d))" by simp
qed

lemma wellFormed_formatCheck: "wellFormed w \<longleftrightarrow> formatCheck w"
proof
  assume "wellFormed w"
  then obtain l a b where w: "w = l @ CHR ''@'' # a @ CHR ''.'' # b"
      "l \<noteq> []" "a \<noteq> []" "b \<noteq> []"
      "list_all notSpaceAt l" "list_all notSpaceAt a" "list_all notSpaceAt b"
    unfolding wellFormed_def by blast
  let ?d = "a @ CHR ''.'' # b"
  have nl: "CHR ''@'' \<notin> set l" and nd: "CHR ''@'' \<notin> set ?d"
    using w(5,6,7) by (auto simp: notSpaceAt_all)
  have c: "count_list w CHR ''@'' = 1" using count_at_one w(1) nl nd by blast
  have sp: "list_all (\<lambda>c. \<not> isSpace c) w"
    using w(5,6,7) by (auto simp: notSpaceAt_all w(1) isSpace_def)
  have "localPart w = l" "domainPart w = ?d" using parts_at[OF nl] w(1) by simp_all
  moreover have "CHR ''.'' \<in> set (butlast (tl ?d))" using inner_dot w(3,4) by blast
  ultimately show "formatCheck w" using c sp w(2) by (simp add: formatCheck_def)
next
  assume f: "formatCheck w"
  then obtain l d where w: "w = l @ CHR ''@'' # d" "CHR ''@'' \<notin> set l" "CHR ''@'' \<notin> set d"
    using count_at_one unfolding formatCheck_def by blast
  have lp: "localPart w = l" "domainPart w = d" using parts_at[OF w(2)] w(1) by simp_all
  then obtain a b where d: "d = a @ CHR ''.'' # b" "a \<noteq> []" "b \<noteq> []"
    using f inner_dot unfolding formatCheck_def by metis
  have sp: "list_all (\<lambda>c. \<not> isSpace c) w" using f by (simp add: formatCheck_def)
  have "list_all notSpaceAt l" "list_all notSpaceAt a" "list_all notSpaceAt b"
    using sp w d by (auto simp: notSpaceAt_all)
  moreover have "l \<noteq> []" using f lp by (simp add: formatCheck_def)
  ultimately show "wellFormed w" unfolding wellFormed_def using w(1) d by blast
qed

lemma test_EMAIL_REGEX: "test EMAIL_REGEX w \<longleftrightarrow> formatCheck w"
  by (simp add: test_iff lang_EMAIL_REGEX wellFormed_formatCheck)

section \<open>The claim about \<^verbatim>\<open>validateEmail\<close>\<close>

text \<open>
  C2. For a nonempty input, \<^verbatim>\<open>validateEmail\<close> returns the result "Invalid email format"
  (not valid, not flagged, state unchanged) exactly when the input fails the check that the
  pattern makes: exactly one \<^verbatim>\<open>@\<close>, no white space, a nonempty local part, and a dot
  in the domain part that is neither its first nor its last character. Every input that
  passes this check is reported valid.
\<close>

theorem validateEmail_format:
  "email \<noteq> [] \<Longrightarrow>
     (validateEmail st email
        = Inr (\<lparr>isValid = False, isTempEmailR = False, error = Some ''Invalid email format''\<rparr>, st))
       = (\<not> formatCheck email)
     \<and> (\<exists>r st'. validateEmail st email = Inr (r, st') \<and> isValid r = formatCheck email)"
proof -
  assume ne: "email \<noteq> []"
  obtain t st1 where t: "isTempEmail st email = Inr (t, st1)"
    using isTempEmail_total by blast
  show ?thesis
  proof (cases "formatCheck email")
    case True
    then show ?thesis using ne t by (simp add: validateEmail_def test_EMAIL_REGEX)
  next
    case False
    then show ?thesis using ne by (simp add: validateEmail_def test_EMAIL_REGEX)
  qed
qed

theorem validateEmail_format_witness:
  "''not-an-email'' \<noteq> [] \<and> \<not> formatCheck ''not-an-email''
   \<and> validateEmail initial_state ''not-an-email''
       = Inr (\<lparr>isValid = False, isTempEmailR = False, error = Some ''Invalid email format''\<rparr>,
              initial_state)
   \<and> ''user@gmail.com'' \<noteq> [] \<and> formatCheck ''user@gmail.com''
   \<and> (\<exists>r st'. validateEmail initial_state ''user@gmail.com'' = Inr (r, st') \<and> isValid r)
   \<and> ''a'' @ [char_of (160 :: nat)] @ ''b@c.com'' \<noteq> []
   \<and> \<not> formatCheck (''a'' @ [char_of (160 :: nat)] @ ''b@c.com'')
   \<and> validateEmail initial_state (''a'' @ [char_of (160 :: nat)] @ ''b@c.com'')
       = Inr (\<lparr>isValid = False, isTempEmailR = False, error = Some ''Invalid email format''\<rparr>,
              initial_state)"
proof -
  let ?nbsp = "''a'' @ [char_of (160 :: nat)] @ ''b@c.com''"
  have n: "''not-an-email'' \<noteq> []" and u: "''user@gmail.com'' \<noteq> []" and b: "?nbsp \<noteq> []"
    by simp_all
  have f: "\<not> formatCheck ''not-an-email''" by code_simp
  have g: "formatCheck ''user@gmail.com''" by code_simp
  have h: "\<not> formatCheck ?nbsp" by code_simp
  show ?thesis
    using f g h validateEmail_format[OF n, of initial_state]
      validateEmail_format[OF u, of initial_state]
      validateEmail_format[OF b, of initial_state]
    by simp
qed

text \<open>
  C2 as it is stated fails: \<^verbatim>\<open>a@.com\<close> and \<^verbatim>\<open>a b@c.com\<close> pass the structural check
  in the words of the specification, and \<^verbatim>\<open>validateEmail\<close> reports both as of invalid
  format.
\<close>

theorem validateEmail_structural_counterexample:
  "structuralCheck ''a@.com''
   \<and> validateEmail initial_state ''a@.com''
       = Inr (\<lparr>isValid = False, isTempEmailR = False, error = Some ''Invalid email format''\<rparr>,
              initial_state)
   \<and> structuralCheck ''a b@c.com''
   \<and> validateEmail initial_state ''a b@c.com''
       = Inr (\<lparr>isValid = False, isTempEmailR = False, error = Some ''Invalid email format''\<rparr>,
              initial_state)"
  by code_simp

end
